theory Spec2Isabelle
  imports Complex_Main "HOL-Library.Word" "HOL-Library.Sublist"
begin

section \<open>Data model\<close>

text \<open>
  The three scripts share one wire format, the \<^verbatim>\<open>struct\<close> format string
  \<^verbatim>\<open>!HHfffBBBBfffBBBB\<close>: 36 bytes per record, big-endian.  A file is a list of
  bytes.  Python integers are \<^typ>\<open>int\<close>; counters that start at 0 and are only
  incremented are \<^typ>\<open>nat\<close>.  Python floats are IEEE-754 binary64 numbers with
  round-to-nearest-even arithmetic, modelled below with infinities and NaN.  The values
  held in a \<^verbatim>\<open>float32\<close> array (positions, scales) are modelled by their IEEE-754
  binary32 bit pattern: \<^verbatim>\<open>float(np.float32)\<close> and \<^verbatim>\<open>struct.pack('f', _)\<close> are
  exact on them.  The values held in a \<^verbatim>\<open>uint8\<close> array (colours, opacity) are
  bytes.
\<close>

type_synonym byte = "8 word"
type_synonym f32 = "32 word"

datatype error = StructError | ValueError | RuntimeError | NoPlyFiles
  | ZeroDivisionError | OverflowError

definition RECORD_SIZE :: nat where
  "RECORD_SIZE = 36"

text \<open>
  Python's \<^verbatim>\<open>xs[i:j]\<close> for \<^verbatim>\<open>0 <= i <= j\<close>.
\<close>

definition slice :: "nat \<Rightarrow> nat \<Rightarrow> 'a list \<Rightarrow> 'a list" where
  "slice i j xs = take (j - i) (drop i xs)"

text \<open>
  One record, as the tuple that \<^verbatim>\<open>generate_records_for_file\<close> yields and
  \<^verbatim>\<open>struct.unpack\<close> returns; the fields are grouped as in
  \<^verbatim>\<open>WRITE_FORMAT\<close>.
\<close>

record splat =
  start_frame :: int
  end_frame :: int
  xyz :: "f32 \<times> f32 \<times> f32"
  color :: "int \<times> int \<times> int"
  opacity :: int
  scaling :: "f32 \<times> f32 \<times> f32"
  rotation :: "int \<times> int \<times> int \<times> int"

section \<open>The struct module on the format string\<close>

text \<open>
  \<^verbatim>\<open>struct.pack(FMT_STR, *rec)\<close> raises \<^verbatim>\<open>struct.error\<close> when an integer
  does not fit its code (H: 0..65535, B: 0..255); otherwise it lays the fields out
  big-endian.  \<^verbatim>\<open>struct.unpack(FMT_STR, data)\<close> raises unless the buffer has
  exactly 36 bytes.
\<close>

fun be_bytes :: "nat \<Rightarrow> nat \<Rightarrow> byte list" where
  "be_bytes 0 v = []"
| "be_bytes (Suc n) v = be_bytes n (v div 256) @ [of_nat (v mod 256)]"

definition be_nat :: "byte list \<Rightarrow> nat" where
  "be_nat bs = foldl (\<lambda>acc b. acc * 256 + unat b) 0 bs"

definition pack_H :: "int \<Rightarrow> byte list" where
  "pack_H v = be_bytes 2 (nat v)"

definition pack_B :: "int \<Rightarrow> byte list" where
  "pack_B v = be_bytes 1 (nat v)"

definition pack_f :: "f32 \<Rightarrow> byte list" where
  "pack_f w = be_bytes 4 (unat w)"

definition unpack_int :: "byte list \<Rightarrow> int" where
  "unpack_int bs = int (be_nat bs)"

definition unpack_f :: "byte list \<Rightarrow> f32" where
  "unpack_f bs = of_nat (be_nat bs)"

definition in_H :: "int \<Rightarrow> bool" where
  "in_H v = (0 \<le> v \<and> v \<le> 65535)"

definition in_B :: "int \<Rightarrow> bool" where
  "in_B v = (0 \<le> v \<and> v \<le> 255)"

definition struct_pack :: "splat \<Rightarrow> error + byte list" where
  "struct_pack r =
     (case (xyz r, color r, scaling r, rotation r) of
        ((x, y, z), (cr, cg, cb), (sx, sy, sz), (rw, rx, ry, rz)) \<Rightarrow>
          if in_H (start_frame r) \<and> in_H (end_frame r)
             \<and> in_B cr \<and> in_B cg \<and> in_B cb \<and> in_B (opacity r)
             \<and> in_B rw \<and> in_B rx \<and> in_B ry \<and> in_B rz
          then Inr (pack_H (start_frame r) @ pack_H (end_frame r)
                    @ pack_f x @ pack_f y @ pack_f z
                    @ pack_B cr @ pack_B cg @ pack_B cb @ pack_B (opacity r)
                    @ pack_f sx @ pack_f sy @ pack_f sz
                    @ pack_B rw @ pack_B rx @ pack_B ry @ pack_B rz)
          else Inl StructError)"

definition struct_unpack :: "byte list \<Rightarrow> error + splat" where
  "struct_unpack bs =
     (if length bs \<noteq> RECORD_SIZE then Inl StructError
      else Inr \<lparr>start_frame = unpack_int (slice 0 2 bs),
                end_frame = unpack_int (slice 2 4 bs),
                xyz = (unpack_f (slice 4 8 bs), unpack_f (slice 8 12 bs), unpack_f (slice 12 16 bs)),
                color = (unpack_int (slice 16 17 bs), unpack_int (slice 17 18 bs),
                         unpack_int (slice 18 19 bs)),
                opacity = unpack_int (slice 19 20 bs),
                scaling = (unpack_f (slice 20 24 bs), unpack_f (slice 24 28 bs),
                           unpack_f (slice 28 32 bs)),
                rotation = (unpack_int (slice 32 33 bs), unpack_int (slice 33 34 bs),
                            unpack_int (slice 34 35 bs), unpack_int (slice 35 36 bs))\<rparr>)"

section \<open>converter.py\<close>

subsection \<open>Python floats\<close>

text \<open>
  A float is a finite binary64 number, an infinity or NaN.  \<open>Fin r\<close> stands for the
  number \<open>r\<close>; the two zeros are identified, which the code below cannot tell apart
  (it never divides by zero and never looks at a sign).  Every operation below returns a
  binary64 number: it rounds the exact result with \<open>rnd\<close>.
\<close>

datatype double = Fin real | PInf | NInf | NaN

text \<open>
  \<open>rnd\<close> rounds a real number to the nearest binary64 number, ties to the even
  significand.  \<open>quantum x\<close> is the spacing of the binary64 numbers around \<open>x\<close>:
  \<open>2 ^ (e - 52)\<close> for \<open>2 ^ e \<le> |x| < 2 ^ (e + 1)\<close>, and \<open>2 ^ - 1074\<close> below the
  normal range.  A result of magnitude \<open>2 ^ 1024\<close> or more is an infinity.
\<close>

definition pow2 :: "int \<Rightarrow> real" where
  "pow2 j = (if 0 \<le> j then 2 ^ nat j else 1 / 2 ^ nat (- j))"

definition round_half_even :: "real \<Rightarrow> int" where
  "round_half_even y =
     (let f = \<lfloor>y\<rfloor> in
      if y - of_int f < 1 / 2 then f
      else if 1 / 2 < y - of_int f then f + 1
      else if even f then f else f + 1)"

definition quantum :: "real \<Rightarrow> real" where
  "quantum x = pow2 (max \<lfloor>log 2 \<bar>x\<bar>\<rfloor> (- 1022) - 52)"

definition rnd :: "real \<Rightarrow> double" where
  "rnd x =
     (if x = 0 then Fin 0
      else let r = of_int (round_half_even (x / quantum x)) * quantum x in
           if 2 ^ 1024 \<le> r then PInf
           else if r \<le> - (2 ^ 1024) then NInf
           else Fin r)"

text \<open>
  \<^verbatim>\<open>a * b\<close>, \<^verbatim>\<open>a + b\<close>, IEEE division and square root.  Multiplication and
  addition of floats never raise in Python; overflow gives an infinity.
\<close>

fun fmul :: "double \<Rightarrow> double \<Rightarrow> double" where
  "fmul NaN b = NaN"
| "fmul a NaN = NaN"
| "fmul (Fin a) (Fin b) = rnd (a * b)"
| "fmul (Fin a) PInf = (if a = 0 then NaN else if 0 < a then PInf else NInf)"
| "fmul (Fin a) NInf = (if a = 0 then NaN else if 0 < a then NInf else PInf)"
| "fmul PInf (Fin b) = (if b = 0 then NaN else if 0 < b then PInf else NInf)"
| "fmul NInf (Fin b) = (if b = 0 then NaN else if 0 < b then NInf else PInf)"
| "fmul PInf PInf = PInf"
| "fmul PInf NInf = NInf"
| "fmul NInf PInf = NInf"
| "fmul NInf NInf = PInf"

fun fadd :: "double \<Rightarrow> double \<Rightarrow> double" where
  "fadd NaN b = NaN"
| "fadd a NaN = NaN"
| "fadd (Fin a) (Fin b) = rnd (a + b)"
| "fadd (Fin a) PInf = PInf"
| "fadd (Fin a) NInf = NInf"
| "fadd PInf (Fin b) = PInf"
| "fadd NInf (Fin b) = NInf"
| "fadd PInf PInf = PInf"
| "fadd PInf NInf = NaN"
| "fadd NInf PInf = NaN"
| "fadd NInf NInf = NInf"

fun fdiv :: "double \<Rightarrow> double \<Rightarrow> double" where
  "fdiv NaN b = NaN"
| "fdiv a NaN = NaN"
| "fdiv (Fin a) (Fin b) =
     (if b = 0 then (if a = 0 then NaN else if 0 < a then PInf else NInf) else rnd (a / b))"
| "fdiv (Fin a) PInf = Fin 0"
| "fdiv (Fin a) NInf = Fin 0"
| "fdiv PInf (Fin b) = (if 0 \<le> b then PInf else NInf)"
| "fdiv NInf (Fin b) = (if 0 \<le> b then NInf else PInf)"
| "fdiv PInf PInf = NaN"
| "fdiv PInf NInf = NaN"
| "fdiv NInf PInf = NaN"
| "fdiv NInf NInf = NaN"

fun fsqrt :: "double \<Rightarrow> double" where
  "fsqrt NaN = NaN"
| "fsqrt PInf = PInf"
| "fsqrt NInf = NaN"
| "fsqrt (Fin a) = (if a < 0 then NaN else rnd (sqrt a))"

text \<open>
  \<^verbatim>\<open>math.sqrt\<close> raises \<^verbatim>\<open>ValueError\<close> on a negative number; \<^verbatim>\<open>a / b\<close>
  raises \<^verbatim>\<open>ZeroDivisionError\<close> on a zero divisor; \<^verbatim>\<open>int(v)\<close> truncates towards
  zero and raises \<^verbatim>\<open>ValueError\<close> on NaN, \<^verbatim>\<open>OverflowError\<close> on an infinity.
\<close>

definition math_sqrt :: "double \<Rightarrow> error + double" where
  "math_sqrt a =
     (case a of
        Fin r \<Rightarrow> if r < 0 then Inl ValueError else Inr (fsqrt a)
      | NInf \<Rightarrow> Inl ValueError
      | _ \<Rightarrow> Inr (fsqrt a))"

definition py_truediv :: "double \<Rightarrow> double \<Rightarrow> error + double" where
  "py_truediv a b = (if b = Fin 0 then Inl ZeroDivisionError else Inr (fdiv a b))"

definition py_int :: "double \<Rightarrow> error + int" where
  "py_int v =
     (case v of
        Fin t \<Rightarrow> Inr (if 0 \<le> t then \<lfloor>t\<rfloor> else \<lceil>t\<rceil>)
      | NaN \<Rightarrow> Inl ValueError
      | _ \<Rightarrow> Inl OverflowError)"

definition to_byte :: "double \<Rightarrow> error + int" where
  "to_byte val =
     (case py_int (fadd (fmul val (Fin 128)) (Fin 128)) of
        Inl e \<Rightarrow> Inl e
      | Inr b \<Rightarrow> Inr (max 0 (min 255 b)))"

subsection \<open>Quaternion quantisation\<close>

type_synonym quaternion = "double \<times> double \<times> double \<times> double"

definition normalize_quaternion_to_bytes :: "quaternion \<Rightarrow> error + (int \<times> int \<times> int \<times> int)" where
  "normalize_quaternion_to_bytes q =
     (case q of (w, x, y, z) \<Rightarrow>
        case math_sqrt (fadd (fadd (fadd (fmul w w) (fmul x x)) (fmul y y)) (fmul z z)) of
          Inl e \<Rightarrow> Inl e
        | Inr length' \<Rightarrow>
            case (if length' = Fin 0 then Inr (Fin 1, Fin 0, Fin 0, Fin 0)
                  else case py_truediv w length' of Inl e \<Rightarrow> Inl e | Inr w' \<Rightarrow>
                       case py_truediv x length' of Inl e \<Rightarrow> Inl e | Inr x' \<Rightarrow>
                       case py_truediv y length' of Inl e \<Rightarrow> Inl e | Inr y' \<Rightarrow>
                       case py_truediv z length' of Inl e \<Rightarrow> Inl e | Inr z' \<Rightarrow>
                         Inr (w', x', y', z')) of
              Inl e \<Rightarrow> Inl e
            | Inr (w', x', y', z') \<Rightarrow>
                case to_byte w' of Inl e \<Rightarrow> Inl e | Inr bw \<Rightarrow>
                case to_byte x' of Inl e \<Rightarrow> Inl e | Inr bx \<Rightarrow>
                case to_byte y' of Inl e \<Rightarrow> Inl e | Inr by' \<Rightarrow>
                case to_byte z' of Inl e \<Rightarrow> Inl e | Inr bz \<Rightarrow>
                  Inr (bw, bx, by', bz))"

subsection \<open>Record generation and output\<close>

text \<open>
  A PLY file, after \<^verbatim>\<open>read_vertices_colors\<close> (the parsing library is outside the
  model): one row of the \<^verbatim>\<open>float32\<close> position array and one row of the
  \<^verbatim>\<open>uint8\<close> colour array per vertex.  The default opacity and scale are taken as
  the element values of the arrays \<^verbatim>\<open>np.full\<close> builds from them.
\<close>

type_synonym vertex = "(f32 \<times> f32 \<times> f32) \<times> (byte \<times> byte \<times> byte)"

definition generate_records_for_file ::
    "vertex list \<Rightarrow> int \<Rightarrow> int \<Rightarrow> byte \<Rightarrow> f32 \<Rightarrow> quaternion \<Rightarrow> error + splat list" where
  "generate_records_for_file ply start_frame' end_frame' default_opacity default_scale
       rotation_wxyz =
     (case normalize_quaternion_to_bytes rotation_wxyz of
        Inl e \<Rightarrow> Inl e
      | Inr rot_bytes \<Rightarrow>
          Inr (map (\<lambda>(p, (r, g, b)).
                 \<lparr>start_frame = start_frame', end_frame = end_frame',
                  xyz = p, color = (uint r, uint g, uint b),
                  opacity = uint default_opacity,
                  scaling = (default_scale, default_scale, default_scale),
                  rotation = rot_bytes\<rparr>) ply))"

text \<open>
  \<^verbatim>\<open>write_dat\<close> packs every record in order; the result is the content of the
  output file (the returned count is the number of records).
\<close>

fun write_dat :: "splat list \<Rightarrow> error + byte list" where
  "write_dat [] = Inr []"
| "write_dat (rec # records) =
     (case struct_pack rec of
        Inl e \<Rightarrow> Inl e
      | Inr b \<Rightarrow> (case write_dat records of Inl e \<Rightarrow> Inl e | Inr bs \<Rightarrow> Inr (b @ bs)))"

text \<open>
  \<^verbatim>\<open>chain_iters\<close> runs the generators one after the other.  A generator raises
  only through the rotation, which is the same for every file, so it raises, if at all,
  when the first file is started and before anything is packed.
\<close>

fun chain_iters :: "(error + 'a list) list \<Rightarrow> error + 'a list" where
  "chain_iters [] = Inr []"
| "chain_iters (it # iters) =
     (case it of
        Inl e \<Rightarrow> Inl e
      | Inr xs \<Rightarrow> (case chain_iters iters of Inl e \<Rightarrow> Inl e | Inr ys \<Rightarrow> Inr (xs @ ys)))"

text \<open>
  The conversion path of \<^verbatim>\<open>main\<close>: no input file is exit code 2; file number
  \<^verbatim>\<open>idx\<close> gets \<^verbatim>\<open>start_frame = end_frame = idx * frame_step\<close>.
\<close>

definition main ::
    "vertex list list \<Rightarrow> int \<Rightarrow> byte \<Rightarrow> f32 \<Rightarrow> quaternion \<Rightarrow> error + byte list" where
  "main ply_files frame_step default_opacity default_scale rotation' =
     (if ply_files = [] then Inl NoPlyFiles
      else case chain_iters (map
             (\<lambda>(idx, ply).
                let start_frame' = int idx * frame_step; end_frame' = start_frame' in
                generate_records_for_file ply start_frame' end_frame' default_opacity
                  default_scale rotation')
             (enumerate 0 ply_files)) of
             Inl e \<Rightarrow> Inl e
           | Inr records \<Rightarrow> write_dat records)"

text \<open>
  \<^verbatim>\<open>validate_dat\<close> prints a warning when the size is not a multiple of the
  record size, then the record count and the first \<^verbatim>\<open>min(head, total)\<close> records;
  read number \<^verbatim>\<open>i\<close> returns the bytes from \<^verbatim>\<open>i * 36\<close> on.
\<close>

fun unpack_all :: "byte list list \<Rightarrow> error + splat list" where
  "unpack_all [] = Inr []"
| "unpack_all (d # ds) =
     (case struct_unpack d of
        Inl e \<Rightarrow> Inl e
      | Inr tup \<Rightarrow> (case unpack_all ds of Inl e \<Rightarrow> Inl e | Inr tups \<Rightarrow> Inr (tup # tups)))"

record validation =
  warning :: bool
  total_records :: nat
  head_records :: "splat list"

definition validate_dat :: "byte list \<Rightarrow> int \<Rightarrow> error + validation" where
  "validate_dat input head =
     (let size = length input;
          warn = (size mod RECORD_SIZE \<noteq> 0);
          total = size div RECORD_SIZE;
          reads = map (\<lambda>i. slice (i * RECORD_SIZE) (i * RECORD_SIZE + RECORD_SIZE) input)
                    [0..<nat (min head (int total))]
      in case unpack_all reads of
           Inl e \<Rightarrow> Inl e
         | Inr tups \<Rightarrow> Inr \<lparr>warning = warn, total_records = total, head_records = tups\<rparr>)"

section \<open>prepare_demo.py\<close>

definition count_records :: "byte list \<Rightarrow> error + nat" where
  "count_records dat =
     (let size = length dat in
      if size mod RECORD_SIZE \<noteq> 0 then Inl RuntimeError else Inr (size div RECORD_SIZE))"

section \<open>downsample_dat.py\<close>

text \<open>
  The inner loop of \<^verbatim>\<open>iter_records\<close>: the records of one chunk.
\<close>

definition chunk_records :: "byte list \<Rightarrow> byte list list" where
  "chunk_records chunk =
     map (\<lambda>i. slice (i * RECORD_SIZE) (i * RECORD_SIZE + RECORD_SIZE) chunk)
       [0..<length chunk div RECORD_SIZE]"

text \<open>
  The outer loop: \<^verbatim>\<open>f.read(chunk_bytes)\<close> returns the next
  \<^verbatim>\<open>chunk_bytes\<close> bytes, fewer at the end of the file, and the loop stops at an
  empty read.
\<close>

function read_chunks :: "nat \<Rightarrow> byte list \<Rightarrow> byte list list" where
  "read_chunks chunk_bytes rest =
     (let chunk = take chunk_bytes rest in
      if chunk = [] then []
      else chunk_records chunk @ read_chunks chunk_bytes (drop chunk_bytes rest))"
  by pat_completeness auto
termination
  by (relation "measure (\<lambda>(n, rest). length rest)") auto

text \<open>
  A buffered reader refuses a negative length other than -1 with
  \<^verbatim>\<open>ValueError\<close>; the aligned length is never -1.
\<close>

definition iter_records :: "byte list \<Rightarrow> int \<Rightarrow> error + byte list list" where
  "iter_records data chunk_bytes =
     (let chunk_bytes = chunk_bytes - chunk_bytes mod int RECORD_SIZE in
      if chunk_bytes < 0 then Inl ValueError
      else Inr (read_chunks (nat chunk_bytes) data))"

text \<open>
  \<^verbatim>\<open>struct.unpack_from('!HH', rec, 0)\<close> needs four bytes.
\<close>

definition unpack_from_HH :: "byte list \<Rightarrow> error + (int \<times> int)" where
  "unpack_from_HH rec =
     (if length rec < 4 then Inl StructError
      else Inr (uint (rec ! 0) * 256 + uint (rec ! 1), uint (rec ! 2) * 256 + uint (rec ! 3)))"

text \<open>
  The state of the loop in \<^verbatim>\<open>downsample\<close>: the records written so far and the
  two counters.  The function returns \<^verbatim>\<open>kept\<close>.
\<close>

record ds_state =
  out :: "byte list list"
  kept :: nat
  total :: nat

text \<open>
  \<^verbatim>\<open>limit and kept >= limit\<close>: \<^verbatim>\<open>None\<close> and 0 are false.
\<close>

definition limit_reached :: "int option \<Rightarrow> nat \<Rightarrow> bool" where
  "limit_reached limit k = (case limit of None \<Rightarrow> False | Some l \<Rightarrow> l \<noteq> 0 \<and> l \<le> int k)"

fun downsample_loop ::
    "int \<Rightarrow> int \<Rightarrow> int option \<Rightarrow> byte list list \<Rightarrow> ds_state \<Rightarrow> error + ds_state" where
  "downsample_loop min_span stride limit [] s = Inr s"
| "downsample_loop min_span stride limit (rec # recs) s =
     (let s1 = s\<lparr>total := total s + 1\<rparr> in
      if 1 < stride \<and> int (total s1) mod stride \<noteq> 0
      then downsample_loop min_span stride limit recs s1
      else case unpack_from_HH rec of
             Inl e \<Rightarrow> Inl e
           | Inr (sf, ef) \<Rightarrow>
               if ef - sf < min_span
               then downsample_loop min_span stride limit recs s1
               else let s2 = s1\<lparr>out := out s1 @ [rec], kept := kept s1 + 1\<rparr> in
                    if limit_reached limit (kept s2) then Inr s2
                    else downsample_loop min_span stride limit recs s2)"

definition DEFAULT_CHUNK_BYTES :: int where
  "DEFAULT_CHUNK_BYTES = 4 * 1024 * 1024"

definition downsample :: "byte list \<Rightarrow> int \<Rightarrow> int \<Rightarrow> int option \<Rightarrow> error + ds_state" where
  "downsample input min_span stride limit =
     (case iter_records input DEFAULT_CHUNK_BYTES of
        Inl e \<Rightarrow> Inl e
      | Inr recs \<Rightarrow>
          downsample_loop min_span stride limit recs \<lparr>out = [], kept = 0, total = 0\<rparr>)"

section \<open>Notions of the specification\<close>



text \<open>
  Steps 1 and 2 of the quantisation on mathematical numbers: the unit quaternion of a
  quaternion (the identity for a quaternion of norm zero).
\<close>

definition unit_quaternion :: "real \<times> real \<times> real \<times> real \<Rightarrow> real \<times> real \<times> real \<times> real" where
  "unit_quaternion q =
     (case q of (w, x, y, z) \<Rightarrow>
        let n = sqrt (w * w + x * x + y * y + z * z) in
        if n = 0 then (1, 0, 0, 0) else (w / n, x / n, y / n, z / n))"

text \<open>
  Modelled from the spec: the decoder of a rotation byte, which belongs to the playback
  client and is not part of the three scripts.  The specification gives it: decode of a
  quantized byte back to a float is (byte-128)/128.
\<close>

definition dequantize :: "int \<Rightarrow> real" where
  "dequantize b = (real_of_int b - 128) / 128"

text \<open>
  The norm as the code computes it, and the four binary64 numbers that the code hands to
  \<^verbatim>\<open>to_byte\<close>: the values of \<^verbatim>\<open>w, x, y, z\<close> after the \<^verbatim>\<open>if\<close>.
\<close>

definition norm64 :: "quaternion \<Rightarrow> double" where
  "norm64 q =
     (case q of (w, x, y, z) \<Rightarrow>
        fsqrt (fadd (fadd (fadd (fmul w w) (fmul x x)) (fmul y y)) (fmul z z)))"

definition quantised :: "quaternion \<Rightarrow> quaternion" where
  "quantised q =
     (case q of (w, x, y, z) \<Rightarrow>
        let n = norm64 q in
        if n = Fin 0 then (Fin 1, Fin 0, Fin 0, Fin 0)
        else (fdiv w n, fdiv x n, fdiv y n, fdiv z n))"

text \<open>
  The byte of a component as the amended claim has it: floor of the binary64 value of
  \<^verbatim>\<open>val * 128 + 128\<close>, clamped to 0..255.
\<close>

definition floor_byte :: "double \<Rightarrow> error + int" where
  "floor_byte v =
     (case fadd (fmul v (Fin 128)) (Fin 128) of
        Fin t \<Rightarrow> Inr (max 0 (min 255 \<lfloor>t\<rfloor>))
      | NaN \<Rightarrow> Inl ValueError
      | _ \<Rightarrow> Inl OverflowError)"

definition floor_bytes :: "quaternion \<Rightarrow> error + (int \<times> int \<times> int \<times> int)" where
  "floor_bytes v =
     (case v of (w, x, y, z) \<Rightarrow>
        case floor_byte w of Inl e \<Rightarrow> Inl e | Inr bw \<Rightarrow>
        case floor_byte x of Inl e \<Rightarrow> Inl e | Inr bx \<Rightarrow>
        case floor_byte y of Inl e \<Rightarrow> Inl e | Inr by' \<Rightarrow>
        case floor_byte z of Inl e \<Rightarrow> Inl e | Inr bz \<Rightarrow>
          Inr (bw, bx, by', bz))"


text \<open>
  A float that is not negative.
\<close>

definition nonneg :: "double \<Rightarrow> bool" where
  "nonneg d = (case d of Fin r \<Rightarrow> 0 \<le> r | NInf \<Rightarrow> False | _ \<Rightarrow> True)"

text \<open>
  The number a finite binary32 bit pattern stands for.
\<close>

definition f32_value :: "f32 \<Rightarrow> real option" where
  "f32_value w =
     (let s = unat w div 2 ^ 31; e = (unat w div 2 ^ 23) mod 256; m = unat w mod 2 ^ 23;
          sign = (if s = 1 then - 1 else 1) in
      if e = 255 then None
      else if e = 0 then Some (sign * (real m / 2 ^ 23) / 2 ^ 126)
      else Some (sign * (1 + real m / 2 ^ 23)
                 * (if 127 \<le> e then 2 ^ (e - 127) else 1 / 2 ^ (127 - e))))"

text \<open>
  The two tests of the filter on a record at 1-indexed input position \<open>p\<close>, and the
  records of a stream that pass both, with their positions.
\<close>

definition stride_ok :: "int \<Rightarrow> nat \<Rightarrow> bool" where
  "stride_ok stride p = (if 1 < stride then int p mod stride = 0 else True)"

definition span_of :: "byte list \<Rightarrow> int" where
  "span_of r = (uint (r ! 2) * 256 + uint (r ! 3)) - (uint (r ! 0) * 256 + uint (r ! 1))"

definition span_ok :: "int \<Rightarrow> byte list \<Rightarrow> bool" where
  "span_ok min_span r = (min_span \<le> span_of r)"

definition passes :: "int \<Rightarrow> int \<Rightarrow> nat \<times> byte list \<Rightarrow> bool" where
  "passes min_span stride pr = (stride_ok stride (fst pr) \<and> span_ok min_span (snd pr))"

definition passing :: "int \<Rightarrow> int \<Rightarrow> nat \<Rightarrow> byte list list \<Rightarrow> (nat \<times> byte list) list" where
  "passing min_span stride t recs = filter (passes min_span stride) (enumerate (Suc t) recs)"

text \<open>
  How many more records may be written from a state with \<open>k\<close> kept records, and the
  input position at which the loop stops.
\<close>

definition cap_left :: "int option \<Rightarrow> nat \<Rightarrow> nat option" where
  "cap_left limit k =
     (case limit of None \<Rightarrow> None
      | Some l \<Rightarrow> if l = 0 then None else Some (max 1 (nat (l - int k))))"

definition capped :: "nat option \<Rightarrow> 'a list \<Rightarrow> 'a list" where
  "capped c xs = (case c of None \<Rightarrow> xs | Some n \<Rightarrow> take n xs)"

definition stop_position :: "nat option \<Rightarrow> (nat \<times> byte list) list \<Rightarrow> nat \<Rightarrow> nat" where
  "stop_position c P end_pos =
     (case c of None \<Rightarrow> end_pos
      | Some n \<Rightarrow> if n \<le> length P then fst (P ! (n - 1)) else end_pos)"

definition loop_result ::
    "int \<Rightarrow> int \<Rightarrow> int option \<Rightarrow> byte list list \<Rightarrow> ds_state \<Rightarrow> ds_state" where
  "loop_result ms st lmt recs s =
     (let c = cap_left lmt (kept s); P = passing ms st (total s) recs in
      \<lparr>out = out s @ map snd (capped c P),
       kept = kept s + length (capped c P),
       total = stop_position c P (total s + length recs)\<rparr>)"

text \<open>
  A file of 77 bytes: two records and five trailing bytes.
\<close>

definition sample_file :: "byte list" where
  "sample_file = replicate 36 0 @ replicate 36 1 @ replicate 5 2"

section \<open>Binary64 rounding\<close>

lemma pow2_powr: "pow2 j = 2 powr real_of_int j"
  by (simp add: pow2_def powr_int)

lemma pow2_pos: "0 < pow2 j"
  by (simp add: pow2_def)

lemma round_half_even_ge: "of_int k \<le> y \<Longrightarrow> k \<le> round_half_even y"
proof -
  assume "of_int k \<le> y"
  then have "k \<le> \<lfloor>y\<rfloor>" by (simp add: le_floor_iff)
  then show ?thesis by (auto simp: round_half_even_def Let_def)
qed

lemma round_half_even_le: "y \<le> of_int k \<Longrightarrow> round_half_even y \<le> k"
proof -
  assume le: "y \<le> of_int k"
  then have f: "\<lfloor>y\<rfloor> \<le> k" by (simp add: floor_le_iff)
  show ?thesis
  proof (cases "\<lfloor>y\<rfloor> = k")
    case True
    with le have "y - of_int \<lfloor>y\<rfloor> \<le> 0" by simp
    then have "y - of_int \<lfloor>y\<rfloor> < 1 / 2" by linarith
    with True show ?thesis by (simp add: round_half_even_def Let_def)
  next
    case False
    with f have "\<lfloor>y\<rfloor> + 1 \<le> k" by simp
    then show ?thesis by (auto simp: round_half_even_def Let_def)
  qed
qed

lemma round_half_even_int: "round_half_even (of_int k) = k"
  by (simp add: round_half_even_def)

lemma floor_log2_eq:
  assumes "pow2 e \<le> \<bar>x\<bar>" and "\<bar>x\<bar> < pow2 (e + 1)"
  shows "\<lfloor>log 2 \<bar>x\<bar>\<rfloor> = e"
proof -
  from assms(1) pow2_pos [of e] have "0 < \<bar>x\<bar>" by linarith
  then show ?thesis
    using assms by (simp add: floor_log_eq_powr_iff pow2_powr)
qed

lemma floor_log2_less:
  assumes "0 < \<bar>x\<bar>" and "\<bar>x\<bar> < pow2 k"
  shows "\<lfloor>log 2 \<bar>x\<bar>\<rfloor> < k"
proof -
  from assms have "log 2 \<bar>x\<bar> < real_of_int k"
    by (simp add: log_less_iff pow2_powr)
  then show ?thesis by linarith
qed

lemma quantum_small:
  assumes "x \<noteq> 0" and "\<bar>x\<bar> < 2 ^ 53"
  shows "\<exists>N. quantum x = 1 / 2 ^ N"
proof -
  have "pow2 53 = 2 ^ 53" by (simp add: pow2_def)
  with assms have "\<lfloor>log 2 \<bar>x\<bar>\<rfloor> < 53"
    using floor_log2_less [of x 53] by simp
  then have j: "max \<lfloor>log 2 \<bar>x\<bar>\<rfloor> (- 1022) - 52 \<le> 0" by simp
  define j where "j = max \<lfloor>log 2 \<bar>x\<bar>\<rfloor> (- 1022) - 52"
  from j have "j \<le> 0" by (simp add: j_def)
  then have "pow2 j = 1 / 2 ^ nat (- j)"
    by (cases "j = 0") (simp_all add: pow2_def)
  then show ?thesis unfolding quantum_def j_def [symmetric] by blast
qed

lemma int_bounds_real:
  "- (2 ^ 53) < (a::int) \<Longrightarrow> - (2 ^ 53) < real_of_int a"
  "(b::int) < 2 ^ 53 \<Longrightarrow> real_of_int b < 2 ^ 53"
  using of_int_less_iff [where ?'a = real, of "- (2 ^ 53)" a]
    of_int_less_iff [where ?'a = real, of b "2 ^ 53"]
  by simp_all

lemma not_overflow:
  fixes r :: real
  assumes "- (2 ^ 53) < r" and "r < 2 ^ 53"
  shows "\<not> 2 ^ 1024 \<le> r" and "\<not> r \<le> - (2 ^ 1024)"
proof -
  have "(2::real) ^ 53 \<le> 2 ^ 1024" by (rule power_increasing) simp_all
  with assms show "\<not> 2 ^ 1024 \<le> r" and "\<not> r \<le> - (2 ^ 1024)" by linarith+
qed

lemma rnd_between:
  assumes "of_int a \<le> x" and "x \<le> of_int b" and "- (2 ^ 53) < a" and "b < 2 ^ 53"
  shows "\<exists>r. rnd x = Fin r \<and> of_int a \<le> r \<and> r \<le> of_int b"
proof (cases "x = 0")
  case True
  with assms show ?thesis by (simp add: rnd_def)
next
  case False
  note ra = int_bounds_real(1) [OF assms(3)] and rb = int_bounds_real(2) [OF assms(4)]
  from assms(1,2) ra rb have "\<bar>x\<bar> < 2 ^ 53" by linarith
  with False obtain N where q: "quantum x = 1 / 2 ^ N"
    using quantum_small by blast
  define m where "m = round_half_even (x / quantum x)"
  define P :: real where "P = 2 ^ N"
  have Ppos: "0 < P" by (simp add: P_def)
  have Pint: "P = of_int (2 ^ N)" by (simp add: P_def)
  have xq: "x / quantum x = x * P" by (simp add: q P_def)
  have "of_int a * P \<le> x * P" using assms(1) Ppos by simp
  then have "of_int (a * 2 ^ N) \<le> x * P" by (simp add: Pint)
  then have lo: "a * 2 ^ N \<le> m"
    unfolding m_def xq by (rule round_half_even_ge)
  have "x * P \<le> of_int b * P" using assms(2) Ppos by simp
  then have "x * P \<le> of_int (b * 2 ^ N)" by (simp add: Pint)
  then have hi: "m \<le> b * 2 ^ N"
    unfolding m_def xq by (rule round_half_even_le)
  define r where "r = of_int m * quantum x"
  have r: "r * P = of_int m" using Ppos by (simp add: r_def q P_def)
  from lo have "real_of_int (a * 2 ^ N) \<le> of_int m" by (simp only: of_int_le_iff)
  then have "of_int a * P \<le> of_int m" by (simp add: P_def)
  then have "of_int a * P \<le> r * P" by (simp only: r)
  then have rlo: "of_int a \<le> r" using Ppos by simp
  from hi have "real_of_int m \<le> of_int (b * 2 ^ N)" by (simp only: of_int_le_iff)
  then have "of_int m \<le> of_int b * P" by (simp add: P_def)
  then have "r * P \<le> of_int b * P" by (simp only: r)
  then have rhi: "r \<le> of_int b" using Ppos by simp
  from rlo ra have "- (2 ^ 53) < r" by linarith
  moreover from rhi rb have "r < 2 ^ 53" by linarith
  ultimately have no: "\<not> 2 ^ 1024 \<le> r" "\<not> r \<le> - (2 ^ 1024)"
    by (rule not_overflow)+
  have "rnd x = Fin r"
    unfolding rnd_def Let_def r_def [symmetric, unfolded m_def]
    using False no by (simp only: if_False)
  with rlo rhi show ?thesis by blast
qed

lemma rnd_int:
  assumes "- (2 ^ 53) < k" and "k < 2 ^ 53"
  shows "rnd (of_int k) = Fin (of_int k)"
proof -
  have "\<exists>r. rnd (of_int k) = Fin r \<and> of_int k \<le> r \<and> r \<le> of_int k"
    using assms by (intro rnd_between) simp_all
  then show ?thesis by auto
qed

lemma rnd_eval:
  assumes "pow2 e \<le> \<bar>x\<bar>" and "\<bar>x\<bar> < pow2 (e + 1)" and "- 1022 \<le> e"
  shows "rnd x =
     (let r = of_int (round_half_even (x / pow2 (e - 52))) * pow2 (e - 52) in
      if 2 ^ 1024 \<le> r then PInf else if r \<le> - (2 ^ 1024) then NInf else Fin r)"
proof -
  from assms(1) pow2_pos [of e] have nz: "x \<noteq> 0" by auto
  have "\<lfloor>log 2 \<bar>x\<bar>\<rfloor> = e" using assms(1,2) by (rule floor_log2_eq)
  with assms(3) have "quantum x = pow2 (e - 52)" by (simp add: quantum_def max_def)
  with nz show ?thesis by (simp add: rnd_def)
qed

lemma rnd_nonneg: "0 \<le> x \<Longrightarrow> nonneg (rnd x)"
proof (cases "x = 0")
  case True
  then show ?thesis by (simp add: rnd_def nonneg_def)
next
  case False
  assume "0 \<le> x"
  have qpos: "0 < quantum x" by (simp add: quantum_def pow2_pos)
  with \<open>0 \<le> x\<close> have "of_int 0 \<le> x / quantum x" by simp
  then have "0 \<le> round_half_even (x / quantum x)" by (rule round_half_even_ge)
  with qpos have "0 \<le> of_int (round_half_even (x / quantum x)) * quantum x" by simp
  then show ?thesis using False by (simp add: rnd_def nonneg_def Let_def)
qed

lemma rnd_tiny:
  assumes "\<bar>x\<bar> \<le> pow2 (- 1075)"
  shows "rnd x = Fin 0"
proof (cases "x = 0")
  case True
  then show ?thesis by (simp add: rnd_def)
next
  case False
  have "pow2 (- 1075) < pow2 (- 1022)" by (simp add: pow2_def)
  with assms False have "\<lfloor>log 2 \<bar>x\<bar>\<rfloor> < - 1022"
    using floor_log2_less [of x "- 1022"] by simp
  then have q: "quantum x = pow2 (- 1074)" by (simp add: quantum_def max_def)
  have half: "pow2 (- 1075) * 2 = pow2 (- 1074)" by (simp add: pow2_def)
  define Q where "Q = pow2 (- 1074)"
  have Qpos: "0 < Q" by (simp add: Q_def pow2_pos)
  from assms half have x2: "\<bar>x\<bar> * 2 \<le> Q" unfolding Q_def by linarith
  define y where "y = x / Q"
  have "\<bar>y\<bar> = \<bar>x\<bar> / Q" using Qpos by (simp add: y_def)
  also have "\<dots> \<le> 1 / 2" using x2 Qpos by (simp add: field_simps)
  finally have "\<bar>y\<bar> \<le> 1 / 2" .
  then have yb: "- (1 / 2) \<le> y" "y \<le> 1 / 2" by linarith+
  then consider "\<lfloor>y\<rfloor> = 0" | "\<lfloor>y\<rfloor> = - 1" by linarith
  then have "round_half_even y = 0"
  proof cases
    case 1
    with yb show ?thesis by (auto simp: round_half_even_def Let_def)
  next
    case 2
    with yb show ?thesis by (auto simp: round_half_even_def Let_def)
  qed
  then have "round_half_even (x / pow2 (- 1074)) = 0" by (simp add: y_def Q_def)
  with False show ?thesis by (simp add: rnd_def q)
qed



section \<open>Quaternion quantisation\<close>

lemma fmul_self_nonneg: "nonneg (fmul w w)"
proof (cases w)
  case (Fin a)
  have "0 \<le> a * a" by simp
  then show ?thesis unfolding Fin fmul.simps by (rule rnd_nonneg)
qed (simp_all add: nonneg_def)

lemma fadd_nonneg: "nonneg a \<Longrightarrow> nonneg b \<Longrightarrow> nonneg (fadd a b)"
proof (cases a; cases b)
  fix r s assume "a = Fin r" "b = Fin s" "nonneg a" "nonneg b"
  then have "0 \<le> r + s" by (simp add: nonneg_def)
  then have "nonneg (rnd (r + s))" by (rule rnd_nonneg)
  with \<open>a = Fin r\<close> \<open>b = Fin s\<close> show "nonneg (fadd a b)" by simp
qed (simp_all add: nonneg_def)

lemma math_sqrt_nonneg: "nonneg a \<Longrightarrow> math_sqrt a = Inr (fsqrt a)"
  by (cases a) (simp_all add: math_sqrt_def nonneg_def)

lemma math_sqrt_sum_squares:
  "math_sqrt (fadd (fadd (fadd (fmul w w) (fmul x x)) (fmul y y)) (fmul z z))
   = Inr (norm64 (w, x, y, z))"
  unfolding norm64_def prod.case
  by (intro math_sqrt_nonneg fadd_nonneg fmul_self_nonneg)

lemma to_byte_floor: "to_byte v = floor_byte v"
proof (cases "fadd (fmul v (Fin 128)) (Fin 128)")
  case (Fin t)
  have "max 0 (min 255 (if 0 \<le> t then \<lfloor>t\<rfloor> else \<lceil>t\<rceil>)) = max 0 (min 255 \<lfloor>t\<rfloor>)"
  proof (cases "0 \<le> t")
    case True
    then show ?thesis by simp
  next
    case False
    then have "\<lceil>t\<rceil> \<le> 0" "\<lfloor>t\<rfloor> \<le> 0" by linarith+
    with False show ?thesis by simp
  qed
  with Fin show ?thesis by (simp add: to_byte_def floor_byte_def py_int_def)
qed (simp_all add: to_byte_def floor_byte_def py_int_def)

lemma normalize_quantised:
  "normalize_quaternion_to_bytes q = floor_bytes (quantised q)"
proof -
  obtain w x y z where q: "q = (w, x, y, z)" by (metis prod_cases4)
  define n where "n = norm64 (w, x, y, z)"
  have unfold: "normalize_quaternion_to_bytes (w, x, y, z) =
     (case (if n = Fin 0 then Inr (Fin 1, Fin 0, Fin 0, Fin 0)
            else case py_truediv w n of Inl e \<Rightarrow> Inl e | Inr w' \<Rightarrow>
                 case py_truediv x n of Inl e \<Rightarrow> Inl e | Inr x' \<Rightarrow>
                 case py_truediv y n of Inl e \<Rightarrow> Inl e | Inr y' \<Rightarrow>
                 case py_truediv z n of Inl e \<Rightarrow> Inl e | Inr z' \<Rightarrow>
                   Inr (w', x', y', z')) of
        Inl e \<Rightarrow> Inl e
      | Inr v \<Rightarrow> floor_bytes v)"
    unfolding normalize_quaternion_to_bytes_def prod.case math_sqrt_sum_squares sum.case
      to_byte_floor floor_bytes_def n_def
    by (rule refl)
  show ?thesis
  proof (cases "n = Fin 0")
    case True
    then show ?thesis
      unfolding q unfold by (simp add: quantised_def n_def [symmetric] Let_def)
  next
    case False
    then show ?thesis
      unfolding q unfold by (simp add: quantised_def n_def [symmetric] py_truediv_def Let_def)
  qed
qed

lemma rnd_small_ints:
  "rnd 0 = Fin 0" "rnd 1 = Fin 1" "rnd 5 = Fin 5" "rnd 9 = Fin 9" "rnd 16 = Fin 16"
  "rnd 25 = Fin 25" "rnd 128 = Fin 128" "rnd 256 = Fin 256"
  using rnd_int [of 0] rnd_int [of 1] rnd_int [of 5] rnd_int [of 9] rnd_int [of 16]
    rnd_int [of 25] rnd_int [of 128] rnd_int [of 256]
  by simp_all

lemma floor_byte_one: "floor_byte (Fin 1) = Inr 255"
  by (simp add: floor_byte_def rnd_small_ints)

lemma floor_byte_zero: "floor_byte (Fin 0) = Inr 128"
  by (simp add: floor_byte_def rnd_small_ints)

lemma identity_bytes: "floor_bytes (Fin 1, Fin 0, Fin 0, Fin 0) = Inr (255, 128, 128, 128)"
  by (simp add: floor_bytes_def floor_byte_one floor_byte_zero)

lemma norm64_identity: "norm64 (Fin 1, Fin 0, Fin 0, Fin 0) = Fin 1"
  by (simp add: norm64_def rnd_small_ints)

lemma identity_rotation:
  "normalize_quaternion_to_bytes (Fin 1, Fin 0, Fin 0, Fin 0) = Inr (255, 128, 128, 128)"
  by (simp add: normalize_quantised quantised_def norm64_identity rnd_small_ints identity_bytes)










lemma rnd_overflow: "rnd (2 ^ 600 * 2 ^ 600) = PInf"
proof -
  have "rnd (2 ^ 600 * 2 ^ 600) =
     (let r = of_int (round_half_even (2 ^ 600 * 2 ^ 600 / pow2 (1200 - 52))) * pow2 (1200 - 52) in
      if 2 ^ 1024 \<le> r then PInf else if r \<le> - (2 ^ 1024) then NInf else Fin r)"
    by (rule rnd_eval) (simp_all add: pow2_def)
  moreover have "(2::real) ^ 600 * 2 ^ 600 / pow2 (1200 - 52) = of_int (2 ^ 52)"
    by (simp add: pow2_def)
  moreover have "real_of_int (2 ^ 52) * pow2 (1200 - 52) = 2 ^ 1200"
    by (simp add: pow2_def)
  moreover have "(2::real) ^ 1024 \<le> 2 ^ 1200"
    by (rule power_increasing) simp_all
  ultimately show ?thesis
    by (simp only: round_half_even_int Let_def if_True)
qed

lemma quantised_overflow:
  "quantised (Fin (2 ^ 600), Fin 0, Fin 0, Fin 0) = (Fin 0, Fin 0, Fin 0, Fin 0)"
proof -
  have n: "norm64 (Fin (2 ^ 600), Fin 0, Fin 0, Fin 0) = PInf"
    unfolding norm64_def prod.case fmul.simps rnd_overflow
    by (simp add: rnd_small_ints)
  show ?thesis
    unfolding quantised_def prod.case Let_def n by simp
qed

lemma normalize_overflow:
  "normalize_quaternion_to_bytes (Fin (2 ^ 600), Fin 0, Fin 0, Fin 0) = Inr (128, 128, 128, 128)"
  by (simp only: normalize_quantised quantised_overflow floor_bytes_def prod.case
      floor_byte_zero sum.case)

lemma rnd_underflow: "rnd (1 / 2 ^ 600 * (1 / 2 ^ 600)) = Fin 0"
proof (rule rnd_tiny)
  have "(1::real) / 2 ^ 600 * (1 / 2 ^ 600) = 1 / 2 ^ 1200"
    by (simp add: power_add [symmetric])
  moreover have "(1::real) / 2 ^ 1200 \<le> 1 / 2 ^ 1075"
    by (intro divide_left_mono power_increasing) simp_all
  ultimately show "\<bar>1 / 2 ^ 600 * (1 / 2 ^ 600)\<bar> \<le> pow2 (- 1075)"
    by (simp add: pow2_def)
qed

lemma normalize_underflow:
  "normalize_quaternion_to_bytes (Fin 0, Fin 0, Fin 0, Fin (1 / 2 ^ 600))
   = Inr (255, 128, 128, 128)"
proof -
  have n: "norm64 (Fin 0, Fin 0, Fin 0, Fin (1 / 2 ^ 600)) = Fin 0"
    unfolding norm64_def prod.case fmul.simps rnd_underflow
    by (simp add: rnd_small_ints)
  have "quantised (Fin 0, Fin 0, Fin 0, Fin (1 / 2 ^ 600)) = (Fin 1, Fin 0, Fin 0, Fin 0)"
    unfolding quantised_def prod.case Let_def n by simp
  then show ?thesis
    by (simp only: normalize_quantised identity_bytes)
qed

lemma normalize_nan:
  "normalize_quaternion_to_bytes (NaN, Fin 0, Fin 0, Fin 0) = Inl ValueError"
  by (simp add: normalize_quantised quantised_def norm64_def floor_bytes_def floor_byte_def)

lemma floor_byte_range: "floor_byte v = Inr b \<Longrightarrow> 0 \<le> b \<and> b \<le> 255"
  by (auto simp: floor_byte_def split: double.splits)












lemma unit_quaternion_axis: "0 < a \<Longrightarrow> unit_quaternion (a, 0, 0, 0) = (1, 0, 0, 0)"
  by (simp add: unit_quaternion_def Let_def)


lemma normalize_range:
  assumes "normalize_quaternion_to_bytes q = Inr (rw, rx, ry, rz)"
  shows "in_B rw" "in_B rx" "in_B ry" "in_B rz"
    and "\<exists>vw vx vy vz. quantised q = (vw, vx, vy, vz)
           \<and> floor_byte vw = Inr rw \<and> floor_byte vx = Inr rx
           \<and> floor_byte vy = Inr ry \<and> floor_byte vz = Inr rz"
proof -
  obtain vw vx vy vz where v: "quantised q = (vw, vx, vy, vz)" by (metis prod_cases4)
  from assms have "floor_bytes (vw, vx, vy, vz) = Inr (rw, rx, ry, rz)"
    by (simp add: normalize_quantised v)
  then have fb: "floor_byte vw = Inr rw" "floor_byte vx = Inr rx"
    "floor_byte vy = Inr ry" "floor_byte vz = Inr rz"
    by (auto simp: floor_bytes_def split: sum.splits)
  with v show "\<exists>vw vx vy vz. quantised q = (vw, vx, vy, vz)
           \<and> floor_byte vw = Inr rw \<and> floor_byte vx = Inr rx
           \<and> floor_byte vy = Inr ry \<and> floor_byte vz = Inr rz"
    by blast
  from fb show "in_B rw" "in_B rx" "in_B ry" "in_B rz"
    using floor_byte_range by (simp_all add: in_B_def)
qed




section \<open>The record codec\<close>

lemma slice_add: "slice i (i + n) xs = take n (drop i xs)"
  by (simp add: slice_def)

lemma length_be_bytes [simp]: "length (be_bytes n v) = n"
  by (induction n arbitrary: v) simp_all

lemma be_nat_snoc: "be_nat (bs @ [b]) = be_nat bs * 256 + unat b"
  by (simp add: be_nat_def)

lemma be_nat_be_bytes: "v < 256 ^ n \<Longrightarrow> be_nat (be_bytes n v) = v"
proof (induction n arbitrary: v)
  case 0
  then show ?case by (simp add: be_nat_def)
next
  case (Suc n)
  then have "v div 256 < 256 ^ n"
    by (simp add: less_mult_imp_div_less mult.commute)
  then have "be_nat (be_bytes n (v div 256)) = v div 256" by (rule Suc.IH)
  moreover have "unat (of_nat (v mod 256) :: byte) = v mod 256"
    by (simp add: unat_of_nat)
  ultimately show ?case by (simp add: be_nat_snoc)
qed

lemma unpack_pack_H:
  assumes "in_H v"
  shows "unpack_int (pack_H v) = v"
proof -
  from assms have "0 \<le> v" "v \<le> 65535" by (simp_all add: in_H_def)
  then have "nat v < 65536" by linarith
  then have "nat v < 256 ^ 2" by simp
  then have "be_nat (be_bytes 2 (nat v)) = nat v" by (rule be_nat_be_bytes)
  with assms show ?thesis by (simp only: unpack_int_def pack_H_def in_H_def int_nat_eq if_True)
qed

lemma unpack_pack_B:
  assumes "in_B v"
  shows "unpack_int (pack_B v) = v"
proof -
  from assms have "0 \<le> v" "v \<le> 255" by (simp_all add: in_B_def)
  then have "nat v < 256" by linarith
  then have "nat v < 256 ^ 1" by simp
  then have "be_nat (be_bytes 1 (nat v)) = nat v" by (rule be_nat_be_bytes)
  with assms show ?thesis by (simp only: unpack_int_def pack_B_def in_B_def int_nat_eq if_True)
qed

lemma unpack_pack_f: "unpack_f (pack_f w) = w"
proof -
  have "unat w < 2 ^ 32" using unsigned_less [of w] by simp
  then have "unat w < 256 ^ 4" by simp
  then show ?thesis by (simp add: unpack_f_def pack_f_def be_nat_be_bytes)
qed

lemma length_pack [simp]:
  "length (pack_H v) = 2" "length (pack_B v) = 1" "length (pack_f w) = 4"
  by (simp_all add: pack_H_def pack_B_def pack_f_def)

lemma struct_pack_length:
  "struct_pack r = Inr bs \<Longrightarrow> length bs = RECORD_SIZE"
  by (auto simp: struct_pack_def RECORD_SIZE_def split: prod.splits if_splits)

lemma struct_unpack_pack:
  assumes "struct_pack r = Inr bs"
  shows "struct_unpack bs = Inr r"
proof -
  obtain x y z cr cg cb sx sy sz rw rx ry rz where
    f: "xyz r = (x, y, z)" "color r = (cr, cg, cb)" "scaling r = (sx, sy, sz)"
       "rotation r = (rw, rx, ry, rz)"
    by (metis prod_cases3 prod_cases4)
  from assms f have ok: "in_H (start_frame r)" "in_H (end_frame r)" "in_B cr" "in_B cg" "in_B cb"
      "in_B (opacity r)" "in_B rw" "in_B rx" "in_B ry" "in_B rz"
    by (auto simp: struct_pack_def split: if_splits)
  from assms f ok have bs: "bs = pack_H (start_frame r) @ pack_H (end_frame r)
                    @ pack_f x @ pack_f y @ pack_f z
                    @ pack_B cr @ pack_B cg @ pack_B cb @ pack_B (opacity r)
                    @ pack_f sx @ pack_f sy @ pack_f sz
                    @ pack_B rw @ pack_B rx @ pack_B ry @ pack_B rz"
    by (simp add: struct_pack_def)
  have len: "length bs = RECORD_SIZE" using assms by (rule struct_pack_length)
  have s: "slice 0 2 bs = pack_H (start_frame r)" "slice 2 4 bs = pack_H (end_frame r)"
    "slice 4 8 bs = pack_f x" "slice 8 12 bs = pack_f y" "slice 12 16 bs = pack_f z"
    "slice 16 17 bs = pack_B cr" "slice 17 18 bs = pack_B cg" "slice 18 19 bs = pack_B cb"
    "slice 19 20 bs = pack_B (opacity r)"
    "slice 20 24 bs = pack_f sx" "slice 24 28 bs = pack_f sy" "slice 28 32 bs = pack_f sz"
    "slice 32 33 bs = pack_B rw" "slice 33 34 bs = pack_B rx" "slice 34 35 bs = pack_B ry"
    "slice 35 36 bs = pack_B rz"
    by (simp_all add: bs slice_def)
  show ?thesis
    using len f ok
    by (simp add: struct_unpack_def s unpack_pack_H unpack_pack_B unpack_pack_f)
qed

lemma in_B_uint: "in_B (uint (b :: byte))"
proof -
  have "uint b < 2 ^ 8" using unsigned_less [of b] by simp
  then show ?thesis by (simp add: in_B_def)
qed

lemma struct_pack_ok:
  assumes "in_H (start_frame r)" "in_H (end_frame r)"
    and "color r = (cr, cg, cb)" "in_B cr" "in_B cg" "in_B cb" "in_B (opacity r)"
    and "rotation r = (rw, rx, ry, rz)" "in_B rw" "in_B rx" "in_B ry" "in_B rz"
  shows "\<exists>bs. struct_pack r = Inr bs"
  using assms by (simp add: struct_pack_def split: prod.splits)

lemma pack_roundtrip:
  assumes "in_H (start_frame r)" "in_H (end_frame r)"
    and "color r = (cr, cg, cb)" "in_B cr" "in_B cg" "in_B cb" "in_B (opacity r)"
    and "rotation r = (rw, rx, ry, rz)" "in_B rw" "in_B rx" "in_B ry" "in_B rz"
  shows "\<exists>bs. struct_pack r = Inr bs \<and> length bs = RECORD_SIZE \<and> struct_unpack bs = Inr r"
proof -
  from assms obtain bs where "struct_pack r = Inr bs"
    using struct_pack_ok by blast
  then show ?thesis
    using struct_pack_length struct_unpack_pack by blast
qed

text \<open>
  C2 (as stated, refuted).  The quaternion (2^600, 0, 0, 0) has the unit quaternion
  (1,0,0,0).  In the code the square of 2^600 overflows, the norm is infinite and every
  component becomes 0: the rotation bytes are (128,128,128,128), and the first decodes
  to 0, at distance 1 from the component 1.
\<close>

theorem rotation_overflow_counterexample:
  "normalize_quaternion_to_bytes (Fin (2 ^ 600), Fin 0, Fin 0, Fin 0) = Inr (128, 128, 128, 128)
   \<and> unit_quaternion (2 ^ 600, 0, 0, 0) = (1, 0, 0, 0)
   \<and> dequantize 128 = 0
   \<and> \<not> \<bar>dequantize 128 - 1\<bar> \<le> 1 / 128"
proof -
  have u: "unit_quaternion (2 ^ 600, 0, 0, 0) = (1, 0, 0, 0)"
    by (rule unit_quaternion_axis) (rule zero_less_power, simp)
  have d: "dequantize 128 = 0" by (simp add: dequantize_def)
  have n: "\<not> \<bar>dequantize 128 - 1\<bar> \<le> 1 / 128" by (simp add: d)
  show ?thesis by (intro conjI) (rule normalize_overflow u d n)+
qed



section \<open>Validation and record counting\<close>

lemma unpack_all_ok:
  "\<forall>d \<in> set ds. length d = RECORD_SIZE \<Longrightarrow>
     \<exists>tups. unpack_all ds = Inr tups \<and> length tups = length ds"
proof (induction ds)
  case Nil
  show ?case by simp
next
  case (Cons d ds)
  then obtain tups where "unpack_all ds = Inr tups" "length tups = length ds"
    by auto
  moreover from Cons.prems have "\<exists>tup. struct_unpack d = Inr tup"
    by (simp add: struct_unpack_def)
  ultimately show ?case by auto
qed

lemma length_read:
  assumes "i < length dat div RECORD_SIZE"
  shows "length (slice (i * RECORD_SIZE) (i * RECORD_SIZE + RECORD_SIZE) dat) = RECORD_SIZE"
proof -
  from assms have "Suc i \<le> length dat div RECORD_SIZE" by simp
  then have "Suc i * RECORD_SIZE \<le> (length dat div RECORD_SIZE) * RECORD_SIZE"
    by (rule mult_le_mono1)
  also have "\<dots> \<le> length dat" by simp
  finally have "i * RECORD_SIZE + RECORD_SIZE \<le> length dat" by simp
  then show ?thesis by (simp add: slice_def)
qed

lemma validate_dat_ok:
  "\<exists>v. validate_dat dat head = Inr v
       \<and> warning v = (length dat mod RECORD_SIZE \<noteq> 0)
       \<and> total_records v = length dat div RECORD_SIZE
       \<and> length (head_records v) = nat (min head (int (length dat div RECORD_SIZE)))"
proof -
  let ?n = "nat (min head (int (length dat div RECORD_SIZE)))"
  let ?reads = "map (\<lambda>i. slice (i * RECORD_SIZE) (i * RECORD_SIZE + RECORD_SIZE) dat) [0..<?n]"
  have "\<forall>d \<in> set ?reads. length d = RECORD_SIZE"
  proof
    fix d assume "d \<in> set ?reads"
    then obtain i where i: "i < ?n" and d: "d = slice (i * RECORD_SIZE) (i * RECORD_SIZE + RECORD_SIZE) dat"
      by auto
    from i have "i < length dat div RECORD_SIZE" by linarith
    then show "length d = RECORD_SIZE" unfolding d by (rule length_read)
  qed
  then obtain tups where "unpack_all ?reads = Inr tups" "length tups = length ?reads"
    using unpack_all_ok by blast
  then show ?thesis by (simp add: validate_dat_def Let_def)
qed

text \<open>
  C7 (as stated, refuted).  On a file of 37 bytes \<^verbatim>\<open>count_records\<close> raises
  \<^verbatim>\<open>RuntimeError\<close>; it does not return floor(37/36) = 1.
\<close>

theorem count_records_raises_counterexample:
  "length (replicate 37 (0 :: byte)) mod RECORD_SIZE \<noteq> 0
   \<and> count_records (replicate 37 0) = Inl RuntimeError
   \<and> count_records (replicate 37 0) \<noteq> Inr (length (replicate 37 (0 :: byte)) div RECORD_SIZE)"
  by (simp add: count_records_def RECORD_SIZE_def)

text \<open>
  C7 (amended).  For every file, \<^verbatim>\<open>validate_dat\<close> does not fail: it warns
  exactly when the size is not a multiple of the record size, reports
  floor(size/36) records and decodes the first min(head, total) of them.
  \<^verbatim>\<open>count_records\<close> returns size/36 when the size is a multiple of the record size
  and raises \<^verbatim>\<open>RuntimeError\<close> otherwise.
\<close>

theorem size_mismatch_handling:
  "(\<exists>v. validate_dat dat head = Inr v
       \<and> warning v = (length dat mod RECORD_SIZE \<noteq> 0)
       \<and> total_records v = length dat div RECORD_SIZE
       \<and> length (head_records v) = nat (min head (int (length dat div RECORD_SIZE))))
   \<and> count_records dat
       = (if length dat mod RECORD_SIZE = 0 then Inr (length dat div RECORD_SIZE)
          else Inl RuntimeError)"
  using validate_dat_ok [of dat head] by (simp add: count_records_def Let_def)

theorem size_mismatch_handling_witness:
  "(\<exists>v. validate_dat (replicate 37 0) 3 = Inr v \<and> warning v \<and> total_records v = 1
        \<and> length (head_records v) = 1)
   \<and> count_records (replicate 37 0) = Inl RuntimeError
   \<and> count_records (replicate 72 0) = Inr 2"
  using size_mismatch_handling [of "replicate 37 0" 3] size_mismatch_handling [of "replicate 72 0" 3]
  by (simp add: RECORD_SIZE_def)

section \<open>The conversion pipeline\<close>

lemma f32_two: "f32_value 0x40000000 = Some 2"
  by (simp add: f32_value_def Let_def)

lemma generated_record_packs:
  assumes "in_H sf" and "in_H ef"
    and "normalize_quaternion_to_bytes q = Inr (rw, rx, ry, rz)"
  shows "\<exists>bs. struct_pack \<lparr>start_frame = sf, end_frame = ef, xyz = p,
                  color = (uint (r :: byte), uint (g :: byte), uint (b :: byte)),
                  opacity = uint (o' :: byte), scaling = sc, rotation = (rw, rx, ry, rz)\<rparr> = Inr bs
            \<and> length bs = RECORD_SIZE
            \<and> struct_unpack bs = Inr \<lparr>start_frame = sf, end_frame = ef, xyz = p,
                  color = (uint r, uint g, uint b),
                  opacity = uint o', scaling = sc, rotation = (rw, rx, ry, rz)\<rparr>"
  by (intro pack_roundtrip [where cr = "uint r" and cg = "uint g" and cb = "uint b"
        and rw = rw and rx = rx and ry = ry and rz = rz])
     (simp_all add: assms normalize_range [OF assms(3)] in_B_uint)

text \<open>
  C8.  Converting two single-vertex files with frame_step 10, opacity 200, scale 2.0
  (bit pattern 0x40000000) and rotation (1,0,0,0) gives a file of 72 bytes; its first
  record decodes to start_frame = end_frame = 0, opacity 200, scale (2.0,2.0,2.0),
  rotation bytes (255,128,128,128), with the position and colour of the first vertex;
  its second record has start_frame = end_frame = 10.
\<close>

theorem two_single_vertex_files:
  "\<exists>bs r1 r2.
     main [[(p1, (c1r, c1g, c1b))], [(p2, (c2r, c2g, c2b))]] 10 200 0x40000000 (Fin 1, Fin 0, Fin 0, Fin 0) = Inr bs
     \<and> length bs = 72
     \<and> struct_unpack (take 36 bs) = Inr r1
     \<and> struct_unpack (drop 36 bs) = Inr r2
     \<and> start_frame r1 = 0 \<and> end_frame r1 = 0 \<and> opacity r1 = 200
     \<and> scaling r1 = (0x40000000, 0x40000000, 0x40000000)
     \<and> f32_value 0x40000000 = Some 2
     \<and> rotation r1 = (255, 128, 128, 128)
     \<and> xyz r1 = p1 \<and> color r1 = (uint c1r, uint c1g, uint c1b)
     \<and> start_frame r2 = 10 \<and> end_frame r2 = 10"
proof -
  let ?r1 = "\<lparr>start_frame = 0, end_frame = 0, xyz = p1,
              color = (uint c1r, uint c1g, uint c1b), opacity = 200,
              scaling = (0x40000000, 0x40000000, 0x40000000),
              rotation = (255, 128, 128, 128)\<rparr>"
  let ?r2 = "\<lparr>start_frame = 10, end_frame = 10, xyz = p2,
              color = (uint c2r, uint c2g, uint c2b), opacity = 200,
              scaling = (0x40000000, 0x40000000, 0x40000000),
              rotation = (255, 128, 128, 128)\<rparr>"
  have h: "in_H 0" "in_H 10" by (simp_all add: in_H_def)
  obtain b1 where b1: "struct_pack ?r1 = Inr b1" "length b1 = RECORD_SIZE"
      "struct_unpack b1 = Inr ?r1"
    using generated_record_packs [OF h(1) h(1) identity_rotation, of p1 c1r c1g c1b 200
        "(0x40000000, 0x40000000, 0x40000000)"]
    by auto
  obtain b2 where b2: "struct_pack ?r2 = Inr b2" "length b2 = RECORD_SIZE"
      "struct_unpack b2 = Inr ?r2"
    using generated_record_packs [OF h(2) h(2) identity_rotation, of p2 c2r c2g c2b 200
        "(0x40000000, 0x40000000, 0x40000000)"]
    by auto
  have recs: "chain_iters (map
             (\<lambda>(idx, ply).
                let start_frame' = int idx * 10; end_frame' = start_frame' in
                generate_records_for_file ply start_frame' end_frame' 200
                  0x40000000 (Fin 1, Fin 0, Fin 0, Fin 0))
             (enumerate 0 [[(p1, (c1r, c1g, c1b))], [(p2, (c2r, c2g, c2b))]])) = Inr [?r1, ?r2]"
    by (simp add: generate_records_for_file_def identity_rotation Let_def)
  have m: "main [[(p1, (c1r, c1g, c1b))], [(p2, (c2r, c2g, c2b))]] 10 200 0x40000000 (Fin 1, Fin 0, Fin 0, Fin 0)
           = Inr (b1 @ b2)"
    unfolding main_def recs by (simp add: b1 b2)
  from m b1 b2 show ?thesis
    by (simp add: RECORD_SIZE_def f32_two)
qed

theorem two_single_vertex_files_witness:
  "\<exists>bs r1 r2.
     main [[((1, 2, 3), (10, 20, 30))], [((4, 5, 6), (40, 50, 60))]] 10 200 0x40000000 (Fin 1, Fin 0, Fin 0, Fin 0)
       = Inr bs
     \<and> length bs = 72
     \<and> struct_unpack (take 36 bs) = Inr r1 \<and> struct_unpack (drop 36 bs) = Inr r2
     \<and> start_frame r1 = 0 \<and> opacity r1 = 200 \<and> rotation r1 = (255, 128, 128, 128)
     \<and> xyz r1 = (1, 2, 3) \<and> color r1 = (10, 20, 30) \<and> start_frame r2 = 10"
  using two_single_vertex_files [of "(1, 2, 3)" 10 20 30 "(4, 5, 6)" 40 50 60]
  by auto

section \<open>The record reader\<close>

declare read_chunks.simps [simp del]

lemma chunk_records_Nil: "chunk_records [] = []"
  by (simp add: chunk_records_def slice_add)

lemma length_chunk_records: "length (chunk_records xs) = length xs div RECORD_SIZE"
  by (simp add: chunk_records_def slice_add)

lemma chunk_records_append:
  assumes "length xs mod RECORD_SIZE = 0"
  shows "chunk_records (xs @ ys) = chunk_records xs @ chunk_records ys"
proof -
  from assms have "RECORD_SIZE dvd length xs"
    by (simp add: mod_eq_0_iff_dvd)
  then obtain k where k: "length xs = k * RECORD_SIZE"
    unfolding dvd_def by (auto simp: mult.commute)
  let ?m = "length ys div RECORD_SIZE"
  let ?f = "\<lambda>zs i. take RECORD_SIZE (drop (i * RECORD_SIZE) zs)"
  have pos: "0 < RECORD_SIZE" by (simp add: RECORD_SIZE_def)
  have total: "length (xs @ ys) div RECORD_SIZE = k + ?m"
    using pos by (simp add: k)
  have "[0..<k + ?m] = [0..<k] @ [k..<k + ?m]"
    by (rule upt_add_eq_append) simp
  moreover have "map (\<lambda>i. i + k) [0..<?m] = [k..<?m + k]"
    by (rule map_add_upt)
  ultimately have upt: "[0..<k + ?m] = [0..<k] @ map (\<lambda>i. i + k) [0..<?m]"
    by (simp only: add.commute)
  have left: "map (?f (xs @ ys)) [0..<k] = map (?f xs) [0..<k]"
  proof (rule map_cong [OF refl])
    fix i assume "i \<in> set [0..<k]"
    then have "Suc i \<le> k" by simp
    then have "Suc i * RECORD_SIZE \<le> k * RECORD_SIZE" by (rule mult_le_mono1)
    then have "i * RECORD_SIZE + RECORD_SIZE \<le> length xs" by (simp add: k)
    then show "?f (xs @ ys) i = ?f xs i" by simp
  qed
  have right: "map (?f (xs @ ys)) (map (\<lambda>i. i + k) [0..<?m]) = map (?f ys) [0..<?m]"
    by (simp add: k add_mult_distrib o_def)
  show ?thesis
    unfolding chunk_records_def slice_add total upt map_append left right
    using pos by (simp add: k)
qed

lemma read_chunks_Nil: "read_chunks n [] = []"
  by (subst read_chunks.simps) simp

lemma read_chunks_zero: "read_chunks 0 data = []"
  by (subst read_chunks.simps) simp

lemma read_chunks_aligned:
  "0 < n \<Longrightarrow> n mod RECORD_SIZE = 0 \<Longrightarrow> read_chunks n rest = chunk_records rest"
proof (induction n rest rule: read_chunks.induct)
  case (1 n rest)
  show ?case
  proof (cases "rest = []")
    case True
    then show ?thesis by (simp add: chunk_records_Nil read_chunks_Nil)
  next
    case False
    with \<open>0 < n\<close> have ne: "take n rest \<noteq> []" by simp
    have unfold: "read_chunks n rest = chunk_records (take n rest) @ read_chunks n (drop n rest)"
      using ne by (subst read_chunks.simps) (simp add: Let_def)
    have ih: "read_chunks n (drop n rest) = chunk_records (drop n rest)"
      using "1.IH" [OF refl ne] "1.prems" by simp
    show ?thesis
    proof (cases "n \<le> length rest")
      case True
      then have "length (take n rest) mod RECORD_SIZE = 0"
        using "1.prems" by simp
      then have "chunk_records (take n rest @ drop n rest)
                 = chunk_records (take n rest) @ chunk_records (drop n rest)"
        by (rule chunk_records_append)
      then show ?thesis by (simp add: unfold ih)
    next
      case False
      then show ?thesis by (simp add: unfold ih chunk_records_Nil read_chunks_Nil)
    qed
  qed
qed

lemma nth_chunk_records:
  "i < length data div RECORD_SIZE \<Longrightarrow>
     chunk_records data ! i = take RECORD_SIZE (drop (i * RECORD_SIZE) data)"
  by (simp add: chunk_records_def slice_add)

lemma record_in_bounds:
  assumes "i < length (data :: 'a list) div RECORD_SIZE"
  shows "i * RECORD_SIZE + RECORD_SIZE \<le> length data"
proof -
  from assms have "Suc i \<le> length data div RECORD_SIZE" by simp
  then have "Suc i * RECORD_SIZE \<le> (length data div RECORD_SIZE) * RECORD_SIZE"
    by (rule mult_le_mono1)
  also have "\<dots> \<le> length data" by simp
  finally show ?thesis by simp
qed

lemma length_nth_chunk_records:
  assumes "i < length data div RECORD_SIZE"
  shows "length (chunk_records data ! i) = RECORD_SIZE"
  using record_in_bounds [OF assms] assms by (simp add: nth_chunk_records)

lemma concat_chunk_records:
  "concat (chunk_records data) = take (length data div RECORD_SIZE * RECORD_SIZE) data"
proof -
  have "concat (map (\<lambda>i. take RECORD_SIZE (drop (i * RECORD_SIZE) data)) [0..<k])
        = take (k * RECORD_SIZE) data" for k
  proof (induction k)
    case 0
    show ?case by simp
  next
    case (Suc k)
    have "take (k * RECORD_SIZE) data @ take RECORD_SIZE (drop (k * RECORD_SIZE) data)
          = take (k * RECORD_SIZE + RECORD_SIZE) data"
      by (simp add: take_add)
    with Suc show ?case by (simp add: add.commute)
  qed
  then show ?thesis by (simp add: chunk_records_def slice_add)
qed

lemma chunk_records_length:
  assumes "r \<in> set (chunk_records data)"
  shows "length r = RECORD_SIZE"
proof -
  from assms obtain i where "i < length (chunk_records data)" and "r = chunk_records data ! i"
    by (auto simp: in_set_conv_nth)
  then show ?thesis
    by (simp add: length_chunk_records length_nth_chunk_records)
qed

lemma aligned_chunk:
  fixes c :: int
  shows "(c - c mod 36) mod 36 = 0" and "c - c mod 36 \<le> c" and "c < c - c mod 36 + 36"
    and "(c - c mod 36 < 0) = (c < 0)" and "(c - c mod 36 = 0) = (0 \<le> c \<and> c < 36)"
  by presburger+

lemma iter_records_cases:
  "iter_records data c =
     (if c < 0 then Inl ValueError
      else if c < 36 then Inr []
      else Inr (chunk_records data))"
proof -
  let ?a = "c - c mod 36"
  have unfold: "iter_records data c = (if ?a < 0 then Inl ValueError else Inr (read_chunks (nat ?a) data))"
    by (simp add: iter_records_def RECORD_SIZE_def Let_def)
  show ?thesis
  proof (cases "c < 0")
    case True
    then have "?a < 0" by presburger
    with True show ?thesis by (simp only: unfold if_True)
  next
    case nonneg: False
    show ?thesis
    proof (cases "c < 36")
      case True
      with nonneg have "?a = 0" by presburger
      with nonneg True show ?thesis by (simp add: unfold read_chunks_zero)
    next
      case False
      with nonneg have "?a \<noteq> 0" by presburger
      moreover from nonneg have "\<not> ?a < 0" by presburger
      ultimately have pos: "0 < nat ?a" by simp
      have "int (nat ?a mod 36) = ?a mod 36"
        using pos by (simp add: zmod_int)
      then have "nat ?a mod RECORD_SIZE = 0"
        by (simp add: aligned_chunk(1) RECORD_SIZE_def)
      with pos have "read_chunks (nat ?a) data = chunk_records data"
        by (rule read_chunks_aligned)
      with nonneg False \<open>\<not> ?a < 0\<close> show ?thesis by (simp add: unfold)
    qed
  qed
qed

lemma iter_records_default:
  "iter_records data DEFAULT_CHUNK_BYTES = Inr (chunk_records data)"
  by (simp add: iter_records_cases DEFAULT_CHUNK_BYTES_def)

lemma same_read:
  fixes i k :: nat
  assumes "0 < k"
  shows "(i * 36) div (36 * k) = (i * 36 + 36 - 1) div (36 * k)"
proof -
  have "(i * 36) div (36 * k) = (i * 36 div 36) div k"
    by (simp only: div_mult2_eq)
  moreover have "(i * 36 + 36 - 1) div (36 * k) = ((i * 36 + 36 - 1) div 36) div k"
    by (simp only: div_mult2_eq)
  moreover have "(i * 36 + 36 - 1) div 36 = i" by simp
  ultimately show ?thesis by simp
qed

lemma sample_records:
  "chunk_records sample_file = [replicate 36 0, replicate 36 1]"
  by (simp add: chunk_records_def slice_add sample_file_def RECORD_SIZE_def upt_rec)

lemma length_sample_file: "length sample_file = 77"
  by (simp add: sample_file_def)

section \<open>The downsample loop\<close>

lemma loop_skip:
  assumes "\<not> passes ms st (Suc (total s), r)" and "4 \<le> length r"
  shows "downsample_loop ms st lmt (r # rs) s
         = downsample_loop ms st lmt rs (s\<lparr>total := Suc (total s)\<rparr>)"
  using assms
  by (auto simp: passes_def stride_ok_def span_ok_def span_of_def unpack_from_HH_def Let_def
      split: if_splits)

lemma loop_keep_stop:
  assumes "passes ms st (Suc (total s), r)" and "4 \<le> length r"
    and "limit_reached lmt (Suc (kept s))"
  shows "downsample_loop ms st lmt (r # rs) s
         = Inr (s\<lparr>total := Suc (total s), out := out s @ [r], kept := Suc (kept s)\<rparr>)"
  using assms
  by (auto simp: passes_def stride_ok_def span_ok_def span_of_def unpack_from_HH_def Let_def
      split: if_splits)

lemma loop_keep_go:
  assumes "passes ms st (Suc (total s), r)" and "4 \<le> length r"
    and "\<not> limit_reached lmt (Suc (kept s))"
  shows "downsample_loop ms st lmt (r # rs) s
         = downsample_loop ms st lmt rs
             (s\<lparr>total := Suc (total s), out := out s @ [r], kept := Suc (kept s)\<rparr>)"
  using assms
  by (auto simp: passes_def stride_ok_def span_ok_def span_of_def unpack_from_HH_def Let_def
      split: if_splits)

declare downsample_loop.simps(2) [simp del]

lemma passing_Cons:
  "passing ms st t (r # rs) =
     (if passes ms st (Suc t, r) then (Suc t, r) # passing ms st (Suc t) rs
      else passing ms st (Suc t) rs)"
  by (simp add: passing_def)

lemma cap_left_reached:
  "limit_reached lmt (Suc k) \<Longrightarrow> cap_left lmt k = Some 1"
  by (auto simp: limit_reached_def cap_left_def max_def split: option.splits)

lemma cap_left_not_reached:
  "\<not> limit_reached lmt (Suc k) \<Longrightarrow>
     (cap_left lmt k = None \<and> cap_left lmt (Suc k) = None)
     \<or> (\<exists>n. cap_left lmt k = Some (Suc (Suc n)) \<and> cap_left lmt (Suc k) = Some (Suc n))"
proof (cases lmt)
  case None
  then show ?thesis by (simp add: cap_left_def)
next
  case (Some l)
  assume nr: "\<not> limit_reached lmt (Suc k)"
  show ?thesis
  proof (cases "l = 0")
    case True
    with Some show ?thesis by (simp add: cap_left_def)
  next
    case False
    with nr Some have big: "int k + 2 \<le> l" by (simp add: limit_reached_def)
    define n where "n = nat (l - int k) - 2"
    from big have n: "nat (l - int k) = Suc (Suc n)"
      unfolding n_def by linarith
    have "nat (l - int (Suc k)) = Suc n"
      using n by simp
    with n Some False show ?thesis by (simp add: cap_left_def)
  qed
qed

lemma cap_left_pos: "cap_left lmt k \<noteq> Some 0"
  by (simp add: cap_left_def split: option.splits)

lemma loop_result_skip:
  assumes "\<not> passes ms st (Suc (total s), r)"
  shows "loop_result ms st lmt (r # rs) s = loop_result ms st lmt rs (s\<lparr>total := Suc (total s)\<rparr>)"
  using assms by (simp add: loop_result_def passing_Cons Let_def)

lemma loop_result_stop:
  assumes "passes ms st (Suc (total s), r)" and "limit_reached lmt (Suc (kept s))"
  shows "loop_result ms st lmt (r # rs) s
         = s\<lparr>total := Suc (total s), out := out s @ [r], kept := Suc (kept s)\<rparr>"
  using assms cap_left_reached [OF assms(2)]
  by (simp add: loop_result_def passing_Cons Let_def capped_def stop_position_def)

lemma loop_result_go:
  assumes "passes ms st (Suc (total s), r)" and "\<not> limit_reached lmt (Suc (kept s))"
  shows "loop_result ms st lmt (r # rs) s
         = loop_result ms st lmt rs
             (s\<lparr>total := Suc (total s), out := out s @ [r], kept := Suc (kept s)\<rparr>)"
  using assms(1) cap_left_not_reached [OF assms(2)]
  by (auto simp: loop_result_def passing_Cons Let_def capped_def stop_position_def)

lemma downsample_loop_result:
  assumes "\<forall>r \<in> set recs. 4 \<le> length r"
  shows "downsample_loop ms st lmt recs s = Inr (loop_result ms st lmt recs s)"
  using assms
proof (induction recs arbitrary: s)
  case Nil
  show ?case
    using cap_left_pos [of lmt "kept s"]
    by (simp add: loop_result_def passing_def capped_def stop_position_def Let_def
        split: option.splits)
next
  case (Cons r rs)
  then have len: "4 \<le> length r" and rest: "\<forall>r \<in> set rs. 4 \<le> length r"
    by simp_all
  note ih = Cons.IH [OF rest]
  show ?case
  proof (cases "passes ms st (Suc (total s), r)")
    case False
    then show ?thesis
      by (simp add: loop_skip [OF False len] loop_result_skip ih)
  next
    case True
    show ?thesis
    proof (cases "limit_reached lmt (Suc (kept s))")
      case reached: True
      show ?thesis
        by (simp add: loop_keep_stop [OF True len reached] loop_result_stop [OF True reached])
    next
      case go: False
      show ?thesis
        by (simp add: loop_keep_go [OF True len go] loop_result_go [OF True go] ih)
    qed
  qed
qed

lemma downsample_eq:
  "downsample data ms st lmt
   = Inr (loop_result ms st lmt (chunk_records data) \<lparr>out = [], kept = 0, total = 0\<rparr>)"
proof -
  have "\<forall>r \<in> set (chunk_records data). 4 \<le> length r"
    by (simp add: chunk_records_length RECORD_SIZE_def)
  then show ?thesis
    by (simp add: downsample_def iter_records_default downsample_loop_result)
qed

lemma zeros_records:
  "chunk_records (replicate 72 0) = [replicate 36 0, replicate 36 0]"
  by (simp add: chunk_records_def slice_add RECORD_SIZE_def upt_rec min_def)

lemma zero_record_passes: "passes 0 1 (p, replicate 36 0)"
  by (simp add: passes_def stride_ok_def span_ok_def span_of_def)

lemmas passes_simps = passes_def stride_ok_def span_ok_def span_of_def

lemma subseq_passing: "subseq (map snd (passing ms st t recs)) recs"
proof -
  have "subseq (filter (passes ms st) (enumerate (Suc t) recs)) (enumerate (Suc t) recs)"
    by simp
  then have "subseq (map snd (filter (passes ms st) (enumerate (Suc t) recs)))
               (map snd (enumerate (Suc t) recs))"
    by (rule subseq_map)
  then show ?thesis by (simp add: passing_def)
qed

lemma subseq_capped: "subseq (capped c xs) xs"
  by (cases c) (simp_all add: capped_def prefix_imp_subseq take_is_prefix)

lemma length_passing: "length (passing ms st t recs) \<le> length recs"
proof -
  have "length (passing ms st t recs) \<le> length (enumerate (Suc t) recs)"
    unfolding passing_def by (rule length_filter_le)
  then show ?thesis by simp
qed

section \<open>Claims about the reader\<close>

text \<open>
  C4.  For every file and chunk budget \<open>c\<close>, the length read at a time,
  \<open>c - c mod 36\<close>, is the largest multiple of 36 not above \<open>c\<close>.  A negative
  budget is refused; otherwise the reader returns, and every buffer it yields has
  exactly 36 bytes, which are the bytes of the file from offset \<open>36 * i\<close> on, inside
  the file, and the first and last byte of the buffer come from the same read.
\<close>

theorem iter_records_aligned:
  "(c - c mod int RECORD_SIZE) mod int RECORD_SIZE = 0
   \<and> c - c mod int RECORD_SIZE \<le> c
   \<and> c < c - c mod int RECORD_SIZE + int RECORD_SIZE
   \<and> (case iter_records data c of
         Inl e \<Rightarrow> c < 0
       | Inr recs \<Rightarrow>
           0 \<le> c \<and>
           (\<forall>i < length recs.
              length (recs ! i) = RECORD_SIZE
              \<and> recs ! i = take RECORD_SIZE (drop (i * RECORD_SIZE) data)
              \<and> i * RECORD_SIZE + RECORD_SIZE \<le> length data
              \<and> (i * RECORD_SIZE) div nat (c - c mod int RECORD_SIZE)
                  = (i * RECORD_SIZE + RECORD_SIZE - 1) div nat (c - c mod int RECORD_SIZE)))"
proof -
  have arith: "(c - c mod 36) mod 36 = 0" "c - c mod 36 \<le> c" "c < c - c mod 36 + 36"
    by presburger+
  have body: "case iter_records data c of
         Inl e \<Rightarrow> c < 0
       | Inr recs \<Rightarrow>
           0 \<le> c \<and>
           (\<forall>i < length recs.
              length (recs ! i) = RECORD_SIZE
              \<and> recs ! i = take RECORD_SIZE (drop (i * RECORD_SIZE) data)
              \<and> i * RECORD_SIZE + RECORD_SIZE \<le> length data
              \<and> (i * RECORD_SIZE) div nat (c - c mod int RECORD_SIZE)
                  = (i * RECORD_SIZE + RECORD_SIZE - 1) div nat (c - c mod int RECORD_SIZE))"
  proof (cases "c < 0")
    case True
    then show ?thesis by (simp add: iter_records_cases)
  next
    case nonneg: False
    show ?thesis
    proof (cases "c < 36")
      case True
      with nonneg show ?thesis by (simp add: iter_records_cases)
    next
      case False
      define k where "k = nat (c div 36)"
      from False have kpos: "0 < k" unfolding k_def by linarith
      have "c - c mod 36 = 36 * (c div 36)" by presburger
      then have n: "nat (c - c mod int 36) = 36 * k"
        using False by (simp add: k_def nat_mult_distrib)
      have each: "length (chunk_records data ! i) = RECORD_SIZE
              \<and> chunk_records data ! i = take RECORD_SIZE (drop (i * RECORD_SIZE) data)
              \<and> i * RECORD_SIZE + RECORD_SIZE \<le> length data
              \<and> (i * RECORD_SIZE) div nat (c - c mod int RECORD_SIZE)
                  = (i * RECORD_SIZE + RECORD_SIZE - 1) div nat (c - c mod int RECORD_SIZE)"
        if "i < length (chunk_records data)" for i
      proof -
        from that have i: "i < length data div RECORD_SIZE"
          by (simp add: length_chunk_records)
        have "(i * RECORD_SIZE) div nat (c - c mod int RECORD_SIZE)
                  = (i * RECORD_SIZE + RECORD_SIZE - 1) div nat (c - c mod int RECORD_SIZE)"
          using same_read [OF kpos, of i] by (simp only: RECORD_SIZE_def n)
        moreover note length_nth_chunk_records [OF i] nth_chunk_records [OF i]
          record_in_bounds [OF i]
        ultimately show ?thesis by blast
      qed
      have ir: "iter_records data c = Inr (chunk_records data)"
        using nonneg False by (simp add: iter_records_cases)
      from nonneg have "0 \<le> c" by simp
      with each show ?thesis
        unfolding ir sum.case by blast
    qed
  qed
  from arith body show ?thesis by (simp add: RECORD_SIZE_def)
qed

theorem iter_records_aligned_witness:
  "iter_records sample_file 100 = Inr [replicate 36 0, replicate 36 1]
   \<and> (100 - 100 mod int RECORD_SIZE) = 72
   \<and> replicate 36 1 = take RECORD_SIZE (drop (1 * RECORD_SIZE) sample_file)
   \<and> 1 * RECORD_SIZE + RECORD_SIZE \<le> length sample_file"
proof -
  have r: "iter_records sample_file 100 = Inr [replicate 36 0, replicate 36 1]"
    by (simp add: iter_records_cases sample_records)
  from iter_records_aligned [of 100 sample_file]
  have "\<forall>i < 2. [replicate 36 0, replicate 36 1] ! i
              = take RECORD_SIZE (drop (i * RECORD_SIZE) sample_file)
          \<and> i * RECORD_SIZE + RECORD_SIZE \<le> length sample_file"
    by (simp add: r)
  from this [rule_format, of 1] r show ?thesis
    by (simp add: RECORD_SIZE_def)
qed

text \<open>
  C10.  For every file (in particular one whose size is not a multiple of 36) and every
  chunk budget of at least 36 bytes (the reader's default is 4 MiB), the record reader
  raises no error and yields exactly floor(size/36) records; together they are the first
  size - size mod 36 bytes of the file, so the trailing size mod 36 bytes are ignored;
  and \<^verbatim>\<open>downsample\<close> returns without an error.
\<close>

theorem iter_records_trailing:
  assumes "36 \<le> c"
  shows "\<exists>recs. iter_records data c = Inr recs
           \<and> length recs = length data div RECORD_SIZE
           \<and> concat recs = take (length data - length data mod RECORD_SIZE) data
           \<and> (\<exists>s. downsample data min_span stride limit = Inr s)"
proof -
  have "length data div RECORD_SIZE * RECORD_SIZE = length data - length data mod RECORD_SIZE"
    by (simp add: minus_mod_eq_div_mult)
  with assms show ?thesis
    by (simp add: iter_records_cases length_chunk_records concat_chunk_records downsample_eq)
qed

theorem iter_records_trailing_witness:
  "36 \<le> DEFAULT_CHUNK_BYTES \<and> length sample_file mod RECORD_SIZE = 5
   \<and> (\<exists>recs. iter_records sample_file DEFAULT_CHUNK_BYTES = Inr recs
           \<and> length recs = 2
           \<and> concat recs = take 72 sample_file
           \<and> (\<exists>s. downsample sample_file 0 1 None = Inr s))"
proof -
  have c: "36 \<le> DEFAULT_CHUNK_BYTES" by (simp add: DEFAULT_CHUNK_BYTES_def)
  show ?thesis
    using c iter_records_trailing [OF c, of sample_file 0 1 None]
    by (simp add: length_sample_file RECORD_SIZE_def)
qed

section \<open>Claims about the filter\<close>

text \<open>
  C3 (as stated, refuted).  With a cap of 1 on a stream of two records that both pass
  the stride test and the span test, the second record passes both tests and is not
  retained.
\<close>

theorem downsample_cap_counterexample:
  "passes 0 1 (2, chunk_records (replicate 72 0) ! 1)
   \<and> map snd (passing 0 1 0 (chunk_records (replicate 72 0)))
       = [replicate 36 0, replicate 36 0]
   \<and> downsample (replicate 72 0) 0 1 (Some 1)
       = Inr \<lparr>out = [replicate 36 0], kept = 1, total = 1\<rparr>"
  by (simp add: downsample_eq loop_result_def zeros_records passing_def zero_record_passes
      cap_left_def capped_def stop_position_def Let_def)

text \<open>
  C3 (amended).  For every input stream, the records written are, in input order, the
  records that pass both tests (when stride > 1 the 1-indexed position over the whole
  input is a multiple of stride; and end_frame - start_frame is at least min_span),
  up to the cap: with limit None or 0 all of them, otherwise the first max(limit, 1) of
  them.
\<close>

theorem downsample_retained:
  "\<exists>s. downsample data min_span stride limit = Inr s
       \<and> out s = map snd (capped (cap_left limit 0)
                   (passing min_span stride 0 (chunk_records data)))"
  by (simp add: downsample_eq loop_result_def Let_def)

theorem downsample_retained_witness:
  "\<exists>s. downsample sample_file 0 2 (Some 5) = Inr s \<and> out s = [replicate 36 1]"
  using downsample_retained [of sample_file 0 2 "Some 5"]
  by (simp add: sample_records passing_def passes_simps cap_left_def capped_def)

text \<open>
  C9.  When limit is None or 0 the cap is off: every record that passes the stride and
  span tests is written, the returned count is the number of passing records, and the
  whole input is read.
\<close>

theorem downsample_no_cap:
  assumes "limit = None \<or> limit = Some 0"
  shows "downsample data min_span stride limit
         = Inr \<lparr>out = map snd (passing min_span stride 0 (chunk_records data)),
                kept = length (passing min_span stride 0 (chunk_records data)),
                total = length data div RECORD_SIZE\<rparr>"
proof -
  from assms have "cap_left limit 0 = None"
    by (auto simp: cap_left_def)
  then show ?thesis
    by (simp add: downsample_eq loop_result_def Let_def capped_def stop_position_def
        length_chunk_records)
qed

theorem downsample_no_cap_witness:
  "downsample sample_file 0 1 (Some 0)
   = Inr \<lparr>out = [replicate 36 0, replicate 36 1], kept = 2, total = 2\<rparr>
   \<and> downsample sample_file 0 1 None
   = Inr \<lparr>out = [replicate 36 0, replicate 36 1], kept = 2, total = 2\<rparr>"
  using downsample_no_cap [of "Some 0" sample_file 0 1] downsample_no_cap [of None sample_file 0 1]
  by (simp add: sample_records passing_def passes_simps length_sample_file RECORD_SIZE_def)

text \<open>
  C5.  For a positive limit, once the number of retained records reaches it (that is,
  when at least limit records of the input pass both tests) the loop stops there:
  exactly limit records are written, they are the first limit passing records, and the
  position counter stands at the limit-th retained record, so nothing after it is
  taken from the reader or written.
\<close>

theorem downsample_cap_halts:
  assumes "0 < l"
    and "nat l \<le> length (passing min_span stride 0 (chunk_records data))"
  shows "\<exists>s. downsample data min_span stride (Some l) = Inr s
           \<and> length (out s) = nat l \<and> kept s = nat l
           \<and> out s = map snd (take (nat l) (passing min_span stride 0 (chunk_records data)))
           \<and> total s = fst (passing min_span stride 0 (chunk_records data) ! (nat l - 1))"
proof -
  from assms(1) have "cap_left (Some l) 0 = Some (nat l)"
    by (simp add: cap_left_def max_def)
  with assms(2) show ?thesis
    by (simp add: downsample_eq loop_result_def Let_def capped_def stop_position_def)
qed

theorem downsample_cap_halts_witness:
  "\<exists>s. downsample sample_file 0 1 (Some 1) = Inr s
       \<and> length (out s) = 1 \<and> kept s = 1 \<and> out s = [replicate 36 0] \<and> total s = 1"
  using downsample_cap_halts [of 1 0 1 sample_file]
  by (simp add: sample_records passing_def passes_simps)

text \<open>
  C6 (as stated, refuted).  With limit 0 the cap is off: a one-record input whose record
  passes is written, and 1 is more than min(0, 1).
\<close>

theorem downsample_length_counterexample:
  "downsample (replicate 36 0) 0 1 (Some 0)
     = Inr \<lparr>out = [replicate 36 0], kept = 1, total = 1\<rparr>
   \<and> chunk_records (replicate 36 0) = [replicate 36 0]
   \<and> \<not> int (length [replicate 36 (0 :: byte)])
         \<le> min 0 (int (length (chunk_records (replicate 36 0))))"
proof -
  have recs: "chunk_records (replicate 36 0) = [replicate 36 0]"
    by (simp add: chunk_records_def slice_add RECORD_SIZE_def)
  show ?thesis
    by (simp add: downsample_eq loop_result_def recs passing_def zero_record_passes
        cap_left_def capped_def stop_position_def Let_def)
qed

text \<open>
  C6 (amended).  For every input stream the output is an order-preserving subsequence of
  the input records; the number of output records is at most the minimum of the limit
  and the number of input records when the limit is positive, and at most the number of
  input records when the limit is None or 0.
\<close>

theorem downsample_subseq:
  "\<exists>s. downsample data min_span stride limit = Inr s
       \<and> subseq (out s) (chunk_records data)
       \<and> length (out s) \<le>
           (case limit of
              None \<Rightarrow> length (chunk_records data)
            | Some l \<Rightarrow> if 0 < l then min (nat l) (length (chunk_records data))
                        else length (chunk_records data))"
proof -
  let ?P = "passing min_span stride 0 (chunk_records data)"
  let ?Q = "capped (cap_left limit 0) ?P"
  have sub: "subseq (map snd ?Q) (chunk_records data)"
  proof -
    have "subseq (map snd ?Q) (map snd ?P)"
      by (rule subseq_map) (rule subseq_capped)
    then show ?thesis
      using subseq_passing subseq_order.order_trans by blast
  qed
  have len: "length ?Q \<le> length (chunk_records data)"
  proof -
    have "length ?Q \<le> length ?P"
      by (cases "cap_left limit 0") (simp_all add: capped_def)
    then show ?thesis using length_passing [of min_span stride 0 "chunk_records data"]
      by linarith
  qed
  have cap: "length ?Q \<le> nat l" if "limit = Some l" and "0 < l" for l
    using that by (simp add: cap_left_def capped_def max_def)
  show ?thesis
    using sub len cap
    by (auto simp: downsample_eq loop_result_def Let_def split: option.splits)
qed

theorem downsample_subseq_witness:
  "\<exists>s. downsample sample_file 0 1 (Some 1) = Inr s
       \<and> subseq (out s) [replicate 36 0, replicate 36 1]
       \<and> length (out s) \<le> 1"
  using downsample_subseq [of sample_file 0 1 "Some 1"]
  by (simp add: sample_records)

end
